theory Spec2Isabelle
  imports Main "HOL-Library.Word"
begin

section \<open>G1EvacFailureRegions::record: the evacuation-failure region tracker\<close>

text \<open>
  The source, \<^verbatim>\<open>g1EvacFailureRegions.inline.hpp\<close>:
  \<^verbatim>\<open>
  bool G1EvacFailureRegions::record(uint region_idx) {
    bool success = _regions_failed_evacuation.par_set_bit(region_idx,
                                                          memory_order_relaxed);
    if (success) {
      size_t offset = Atomic::fetch_then_add(&_evac_failure_regions_cur_length, 1u);
      _evac_failure_regions[offset] = region_idx;

      G1CollectedHeap* g1h = G1CollectedHeap::heap();
      HeapRegion* hr = g1h->region_at(region_idx);
      hr->note_evacuation_failure();
    }
    return success;
  }
  \<close>
  A region index is a \<^verbatim>\<open>uint\<close>, a 32-bit word. The three fields the function touches
  are the presence bitmap, the array of failed region indices and its length counter;
  the counter is incremented by the \<^verbatim>\<open>uint\<close> literal \<^verbatim>\<open>1u\<close> and is modelled as a
  \<^verbatim>\<open>uint\<close> whose addition wraps.
\<close>

subsection \<open>Data model\<close>

type_synonym uint = "32 word"

text \<open>
  The ways a call can leave the defined behaviour of the program: a bit index outside the
  bitmap (an assertion in debug builds, undefined in optimised ones), and a store beyond
  the end of the array.
\<close>

datatype error = BitIndexOutOfRange | SlotOutOfBounds

text \<open>
  The fields of the tracker, under the names of the source. The last field is not a
  field of the class: it is the trace of the calls of
  \<^verbatim>\<open>HeapRegion::note_evacuation_failure\<close>, by region index, oldest first, which stands
  for the effect of the notification on the region objects of the heap.
\<close>

record g1_evac_failure_regions =
  regions_failed_evacuation :: "bool list"
  evac_failure_regions :: "uint list"
  evac_failure_regions_cur_length :: uint
  evacuation_failure_notes :: "uint list"

subsection \<open>The operations \<^verbatim>\<open>record\<close> calls\<close>

text \<open>
  Modelled from the spec: \<^verbatim>\<open>BitMap::par_set_bit\<close> (utilities/bitMap.inline.hpp) is
  missing from the sources at hand. The spec's contract of the presence bitmap:
  precondition \<open>0 \<le> region_id < capacity\<close>; the bit is tested and set in one
  indivisible step; the result is true iff this call performed the 0-to-1 transition.
  The function returns the new bitmap and that result.
\<close>

definition par_set_bit :: "bool list \<Rightarrow> uint \<Rightarrow> error + (bool list \<times> bool)" where
  "par_set_bit bm idx =
     (if unat idx < length bm
      then Inr (bm[unat idx := True], \<not> bm ! unat idx)
      else Inl BitIndexOutOfRange)"

text \<open>
  Modelled from the spec: \<^verbatim>\<open>Atomic::fetch_then_add\<close> (runtime/atomic.hpp) is missing
  from the sources at hand. The spec's contract of the append log: the counter is
  incremented in one indivisible step and the pre-increment value is returned. The
  function returns the new counter and the value handed to the caller.
\<close>

definition fetch_then_add :: "uint \<Rightarrow> uint \<Rightarrow> uint \<times> uint" where
  "fetch_then_add dest add_value = (dest + add_value, dest)"

text \<open>
  Modelled from the spec: \<^verbatim>\<open>G1CollectedHeap::region_at\<close> and
  \<^verbatim>\<open>HeapRegion::note_evacuation_failure\<close> are missing from the sources at hand; the
  spec treats the region object as an external collaborator that receives a
  notification. The call is recorded in the trace.
\<close>

definition note_evacuation_failure ::
  "g1_evac_failure_regions \<Rightarrow> uint \<Rightarrow> g1_evac_failure_regions" where
  "note_evacuation_failure s region_idx =
     s\<lparr>evacuation_failure_notes := evacuation_failure_notes s @ [region_idx]\<rparr>"

subsection \<open>\<^verbatim>\<open>record\<close>\<close>

text \<open>
  One call of \<^verbatim>\<open>record\<close>, run without interference: the new state and the value
  returned, or the error. (\<open>record\<close> is a keyword of Isabelle, hence the name.)
\<close>

definition record_region ::
  "g1_evac_failure_regions \<Rightarrow> uint \<Rightarrow> error + (g1_evac_failure_regions \<times> bool)" where
  "record_region s region_idx =
     (case par_set_bit (regions_failed_evacuation s) region_idx of
        Inl e \<Rightarrow> Inl e
      | Inr (bm, success) \<Rightarrow>
          let s1 = s\<lparr>regions_failed_evacuation := bm\<rparr> in
          if success then
            (case fetch_then_add (evac_failure_regions_cur_length s1) 1 of
               (len, old) \<Rightarrow>
                 let offset = unat old;
                     s2 = s1\<lparr>evac_failure_regions_cur_length := len\<rparr>
                 in if offset < length (evac_failure_regions s2)
                    then Inr (note_evacuation_failure
                                (s2\<lparr>evac_failure_regions :=
                                      (evac_failure_regions s2)[offset := region_idx]\<rparr>)
                                region_idx,
                              True)
                    else Inl SlotOutOfBounds)
          else Inr (s1, False))"

text \<open>
  A sequence of calls, one after the other, as one worker would make them: the final
  state and the value each call returned. An error ends the run.
\<close>

fun record_all ::
  "g1_evac_failure_regions \<Rightarrow> uint list \<Rightarrow> error + (g1_evac_failure_regions \<times> bool list)" where
  "record_all s [] = Inr (s, [])"
| "record_all s (r # rs) =
     (case record_region s r of
        Inl e \<Rightarrow> Inl e
      | Inr (s1, b) \<Rightarrow>
          (case record_all s1 rs of
             Inl e \<Rightarrow> Inl e
           | Inr (s2, bs) \<Rightarrow> Inr (s2, b # bs)))"

text \<open>
  The state at the start of a Recording phase (the spec's \<open>Idle\<close>): every bit clear,
  the counter zero, the array as long as the bitmap. The region count is a \<^verbatim>\<open>uint\<close>,
  like the region indices, so it is below \<open>2 ^ 32\<close>.
\<close>

definition idle :: "g1_evac_failure_regions \<Rightarrow> bool" where
  "idle s \<longleftrightarrow>
     list_all (\<lambda>b. \<not> b) (regions_failed_evacuation s) \<and>
     evac_failure_regions_cur_length s = 0 \<and>
     length (evac_failure_regions s) = length (regions_failed_evacuation s) \<and>
     length (regions_failed_evacuation s) < 2 ^ 32"

text \<open>The read side, after the phase: the entries of the array below the counter.\<close>

definition failed_regions :: "g1_evac_failure_regions \<Rightarrow> uint list" where
  "failed_regions s =
     take (unat (evac_failure_regions_cur_length s)) (evac_failure_regions s)"

subsection \<open>The rest of the interface\<close>

text \<open>
  Modelled from the spec: \<^verbatim>\<open>reset\<close> is missing from the sources at hand. The spec: the
  bitmap's reset clears all bits and the append log's reset sets the counter back to
  zero. The storage keeps its size and the region objects are not touched.
\<close>

definition reset :: "g1_evac_failure_regions \<Rightarrow> g1_evac_failure_regions" where
  "reset s =
     s\<lparr>regions_failed_evacuation := replicate (length (regions_failed_evacuation s)) False,
       evac_failure_regions_cur_length := 0\<rparr>"

text \<open>
  Modelled from the spec: \<^verbatim>\<open>count\<close> is missing from the sources at hand. The spec: the
  log length, the current value of the counter.
\<close>

definition count :: "g1_evac_failure_regions \<Rightarrow> nat" where
  "count s = unat (evac_failure_regions_cur_length s)"

text \<open>
  Modelled from the spec: \<^verbatim>\<open>has_failed_regions\<close> is missing from the sources at hand.
  The spec: \<open>length > 0\<close>.
\<close>

definition has_failed_regions :: "g1_evac_failure_regions \<Rightarrow> bool" where
  "has_failed_regions s \<longleftrightarrow> 0 < count s"

subsection \<open>Concurrent calls\<close>

text \<open>
  Workers call \<^verbatim>\<open>record\<close> at the same time. A call is cut at its accesses to the
  shared state, in the order of the source: the test-and-set of the bit, the
  fetch-and-add of the counter, the store into the array, the notification. The two
  atomic operations are one step each, as the spec describes them. A program point
  says what the call does next and carries the locals it needs: the region index, and
  the offset once it is known.
\<close>

datatype pc =
    Start uint
  | Claimed uint
  | Reserved uint nat
  | Stored uint
  | Returned uint bool
  | Aborted uint error

text \<open>
  One step of one call: \<open>Start\<close> runs \<^verbatim>\<open>par_set_bit\<close> and either goes on with
  \<open>success\<close> true or returns false; \<open>Claimed\<close> runs \<^verbatim>\<open>fetch_then_add\<close>; \<open>Reserved\<close>
  stores the region index at the offset; \<open>Stored\<close> notifies the region and returns true.
  A call that has returned or has failed stays where it is.
\<close>

fun thread_step :: "g1_evac_failure_regions \<Rightarrow> pc \<Rightarrow> g1_evac_failure_regions \<times> pc" where
  "thread_step s (Start region_idx) =
     (case par_set_bit (regions_failed_evacuation s) region_idx of
        Inl e \<Rightarrow> (s, Aborted region_idx e)
      | Inr (bm, success) \<Rightarrow>
          (s\<lparr>regions_failed_evacuation := bm\<rparr>,
           if success then Claimed region_idx else Returned region_idx False))"
| "thread_step s (Claimed region_idx) =
     (case fetch_then_add (evac_failure_regions_cur_length s) 1 of
        (len, old) \<Rightarrow>
          (s\<lparr>evac_failure_regions_cur_length := len\<rparr>, Reserved region_idx (unat old)))"
| "thread_step s (Reserved region_idx offset) =
     (if offset < length (evac_failure_regions s)
      then (s\<lparr>evac_failure_regions := (evac_failure_regions s)[offset := region_idx]\<rparr>,
            Stored region_idx)
      else (s, Aborted region_idx SlotOutOfBounds))"
| "thread_step s (Stored region_idx) =
     (note_evacuation_failure s region_idx, Returned region_idx True)"
| "thread_step s (Returned region_idx success) = (s, Returned region_idx success)"
| "thread_step s (Aborted region_idx e) = (s, Aborted region_idx e)"

text \<open>
  The workers' calls run interleaved: a configuration is the shared state with the
  program point of each call, and a step of the whole is a step of the call with the
  given number (a number that names no call does nothing).
\<close>

definition step ::
  "g1_evac_failure_regions \<times> pc list \<Rightarrow> nat \<Rightarrow> g1_evac_failure_regions \<times> pc list" where
  "step c i =
     (case c of (s, ts) \<Rightarrow>
        if i < length ts
        then (case thread_step s (ts ! i) of (s', p) \<Rightarrow> (s', ts[i := p]))
        else (s, ts))"

text \<open>
  A schedule lists, step by step, which call moves next. Calls made one after the other
  are the schedules that run a call to its end before the next one starts.
\<close>

primrec exec ::
  "g1_evac_failure_regions \<times> pc list \<Rightarrow> nat list \<Rightarrow> g1_evac_failure_regions \<times> pc list" where
  "exec c [] = c"
| "exec c (i # sch) = exec (step c i) sch"

subsection \<open>Notions used in the proofs\<close>

text \<open>The indices of the bits that are set.\<close>

definition set_bits :: "bool list \<Rightarrow> nat list" where
  "set_bits bm = filter (\<lambda>i. bm ! i) [0..<length bm]"

text \<open>
  The invariant of the tracker between calls: the array is as long as the bitmap, the
  counter is within the array, and the entries below the counter are, without
  repetition, the regions whose bit is set.
\<close>

definition tracker_inv :: "g1_evac_failure_regions \<Rightarrow> bool" where
  "tracker_inv s \<longleftrightarrow>
     length (evac_failure_regions s) = length (regions_failed_evacuation s) \<and>
     length (regions_failed_evacuation s) < 2 ^ 32 \<and>
     unat (evac_failure_regions_cur_length s) \<le> length (evac_failure_regions s) \<and>
     distinct (failed_regions s) \<and>
     set (map unat (failed_regions s)) = set (set_bits (regions_failed_evacuation s))"

text \<open>The region indices of the calls of a run that returned true, in the order of the calls.\<close>

definition winners :: "uint list \<Rightarrow> bool list \<Rightarrow> uint list" where
  "winners rs outs = map fst (filter snd (zip rs outs))"

text \<open>
  For the interleaved calls: the region a call is about; whether it is at its start, has
  failed, has won its claim, has taken its slot; and how many steps it still needs at
  most.
\<close>

fun region_of :: "pc \<Rightarrow> uint" where
  "region_of (Start r) = r"
| "region_of (Claimed r) = r"
| "region_of (Reserved r offset) = r"
| "region_of (Stored r) = r"
| "region_of (Returned r b) = r"
| "region_of (Aborted r e) = r"

fun is_start :: "pc \<Rightarrow> bool" where
  "is_start (Start r) = True"
| "is_start p = False"

fun is_aborted :: "pc \<Rightarrow> bool" where
  "is_aborted (Aborted r e) = True"
| "is_aborted p = False"

fun winner :: "pc \<Rightarrow> bool" where
  "winner (Claimed r) = True"
| "winner (Reserved r offset) = True"
| "winner (Stored r) = True"
| "winner (Returned r b) = b"
| "winner p = False"

fun passed :: "pc \<Rightarrow> bool" where
  "passed (Reserved r offset) = True"
| "passed (Stored r) = True"
| "passed (Returned r b) = b"
| "passed p = False"

fun remaining :: "pc \<Rightarrow> nat" where
  "remaining (Start r) = 4"
| "remaining (Claimed r) = 3"
| "remaining (Reserved r offset) = 2"
| "remaining (Stored r) = 1"
| "remaining p = 0"

text \<open>
  The invariant of the interleaved calls with region indices \<open>rs\<close>: no call has failed;
  a call past its start has its bit set; among the calls for one region at most one has
  won, and one has won if the bit is set; the counter is the number of calls that have
  taken a slot, and every offset in hand is below it.
\<close>

definition par_inv :: "uint list \<Rightarrow> g1_evac_failure_regions \<times> pc list \<Rightarrow> bool" where
  "par_inv rs c \<longleftrightarrow>
     (case c of (s, ts) \<Rightarrow>
        length ts = length rs \<and>
        length (evac_failure_regions s) = length (regions_failed_evacuation s) \<and>
        length (regions_failed_evacuation s) < 2 ^ 32 \<and>
        (\<forall>i<length ts. unat (rs ! i) < length (regions_failed_evacuation s)) \<and>
        (\<forall>i<length ts. region_of (ts ! i) = rs ! i \<and> \<not> is_aborted (ts ! i)) \<and>
        (\<forall>i<length ts. \<not> is_start (ts ! i) \<longrightarrow> regions_failed_evacuation s ! unat (rs ! i)) \<and>
        (\<forall>i<length ts. \<forall>j<length ts.
           winner (ts ! i) \<and> winner (ts ! j) \<and> rs ! i = rs ! j \<longrightarrow> i = j) \<and>
        (\<forall>i<length ts. regions_failed_evacuation s ! unat (rs ! i) \<longrightarrow>
           (\<exists>j<length ts. winner (ts ! j) \<and> rs ! j = rs ! i)) \<and>
        unat (evac_failure_regions_cur_length s) = card {i. i < length ts \<and> passed (ts ! i)} \<and>
        (\<forall>i<length ts. \<forall>r offset. ts ! i = Reserved r offset \<longrightarrow>
           offset < unat (evac_failure_regions_cur_length s)))"

subsection \<open>The scenario of the spec\<close>

text \<open>
  Four regions, 0 to 3. Region 2 is recorded, then region 2 again, then region 0.
  \<open>scenario_idle\<close> is the state before, \<open>scenario_sealed\<close> the state after.
\<close>

definition scenario_idle :: g1_evac_failure_regions where
  "scenario_idle =
     \<lparr>regions_failed_evacuation = [False, False, False, False],
      evac_failure_regions = [0, 0, 0, 0],
      evac_failure_regions_cur_length = 0,
      evacuation_failure_notes = []\<rparr>"

definition scenario_sealed :: g1_evac_failure_regions where
  "scenario_sealed =
     \<lparr>regions_failed_evacuation = [True, False, True, False],
      evac_failure_regions = [2, 0, 0, 0],
      evac_failure_regions_cur_length = 2,
      evacuation_failure_notes = [2, 0]\<rparr>"

section \<open>Properties\<close>

subsection \<open>Helper lemmas\<close>

lemma set_set_bits: "set (set_bits bm) = {i. i < length bm \<and> bm ! i}"
  by (auto simp: set_bits_def)

lemma set_bits_update:
  "i < length bm \<Longrightarrow> set (set_bits (bm[i := True])) = insert i (set (set_bits bm))"
  by (auto simp: set_set_bits nth_list_update)

lemma inj_on_unat: "inj_on (unat :: uint \<Rightarrow> nat) A"
  by (rule inj_onI) (simp add: word_unat_eq_iff)

lemma idle_tracker_inv: "idle s \<Longrightarrow> tracker_inv s"
  by (auto simp: idle_def tracker_inv_def failed_regions_def set_set_bits list_all_length)

lemma distinct_bounded_length:
  assumes "distinct (xs :: nat list)" and "set xs \<subseteq> {..<n} - {k}" and "k < n"
  shows "length xs < n"
proof -
  have "card (set xs) \<le> card ({..<n} - {k})"
    using assms(2) by (intro card_mono) auto
  also have "\<dots> = n - 1" using assms(3) by simp
  finally show ?thesis using assms(1,3) by (simp add: distinct_card)
qed

lemma cur_length_below_capacity:
  assumes inv: "tracker_inv s"
    and r: "unat r < length (regions_failed_evacuation s)"
    and clear: "\<not> regions_failed_evacuation s ! unat r"
  shows "unat (evac_failure_regions_cur_length s) < length (evac_failure_regions s)"
proof -
  let ?xs = "map unat (failed_regions s)"
  have d: "distinct ?xs"
    using inv by (simp add: tracker_inv_def distinct_map inj_on_unat)
  have sub: "set ?xs \<subseteq> {..<length (regions_failed_evacuation s)} - {unat r}"
    using inv clear unfolding tracker_inv_def set_set_bits by auto
  have "length ?xs < length (regions_failed_evacuation s)"
    using distinct_bounded_length [OF d sub r] .
  moreover have "length ?xs = unat (evac_failure_regions_cur_length s)"
    using inv by (simp add: tracker_inv_def failed_regions_def)
  ultimately show ?thesis using inv by (simp add: tracker_inv_def)
qed

lemma unat_succ_cur_length:
  "unat (c :: uint) < n \<Longrightarrow> n < 2 ^ 32 \<Longrightarrow> unat (c + 1) = Suc (unat c)"
proof -
  assume "unat c < n" "n < 2 ^ 32"
  then have "unat c + unat (1 :: uint) < 2 ^ LENGTH(32)" by simp
  then have "unat (c + 1) = unat c + unat (1 :: uint)" by (simp only: unat_add_lem)
  then show ?thesis by simp
qed

lemma record_region_fresh:
  assumes inv: "tracker_inv s"
    and r: "unat r < length (regions_failed_evacuation s)"
    and clear: "\<not> regions_failed_evacuation s ! unat r"
  defines "s' \<equiv> s\<lparr>regions_failed_evacuation := (regions_failed_evacuation s)[unat r := True],
                     evac_failure_regions_cur_length := evac_failure_regions_cur_length s + 1,
                     evac_failure_regions :=
                       (evac_failure_regions s)[unat (evac_failure_regions_cur_length s) := r],
                     evacuation_failure_notes := evacuation_failure_notes s @ [r]\<rparr>"
  shows "record_region s r = Inr (s', True)"
    and "failed_regions s' = failed_regions s @ [r]"
    and "tracker_inv s'"
proof -
  let ?c = "evac_failure_regions_cur_length s"
  have lt: "unat ?c < length (evac_failure_regions s)"
    using cur_length_below_capacity [OF inv r clear] .
  have cap: "length (evac_failure_regions s) < 2 ^ 32"
    using inv by (simp add: tracker_inv_def)
  have suc: "unat (?c + 1) = Suc (unat ?c)"
    using unat_succ_cur_length [OF lt cap] .
  show rr: "record_region s r = Inr (s', True)"
    using r clear lt
    by (simp add: record_region_def par_set_bit_def fetch_then_add_def
        note_evacuation_failure_def s'_def)
  show fr: "failed_regions s' = failed_regions s @ [r]"
    using lt suc by (simp add: failed_regions_def s'_def take_Suc_conv_app_nth)
  have notin: "r \<notin> set (failed_regions s)"
  proof
    assume "r \<in> set (failed_regions s)"
    then have "unat r \<in> set (map unat (failed_regions s))" by simp
    then show False using inv clear by (simp add: tracker_inv_def set_set_bits)
  qed
  have bits: "set (set_bits (regions_failed_evacuation s')) =
      insert (unat r) (set (set_bits (regions_failed_evacuation s)))"
    using r by (simp add: s'_def set_bits_update)
  show "tracker_inv s'"
    unfolding tracker_inv_def fr bits
    using inv notin lt suc by (simp add: tracker_inv_def s'_def)
qed

lemma record_region_cases:
  assumes "record_region s r = Inr (s', b)"
  shows "unat r < length (regions_failed_evacuation s)"
    and "b = (\<not> regions_failed_evacuation s ! unat r)"
    and "regions_failed_evacuation s' = (regions_failed_evacuation s)[unat r := True]"
    and "length (evac_failure_regions s') = length (evac_failure_regions s)"
    and "b \<Longrightarrow> unat (evac_failure_regions_cur_length s) < length (evac_failure_regions s)"
    and "b \<Longrightarrow> evac_failure_regions s' =
           (evac_failure_regions s)[unat (evac_failure_regions_cur_length s) := r]"
    and "b \<Longrightarrow> evac_failure_regions_cur_length s' = evac_failure_regions_cur_length s + 1"
    and "b \<Longrightarrow> evacuation_failure_notes s' = evacuation_failure_notes s @ [r]"
    and "\<not> b \<Longrightarrow> s' = s"
  using assms
  by (auto simp: record_region_def par_set_bit_def fetch_then_add_def
      note_evacuation_failure_def Let_def list_update_same_conv split: if_splits)

lemma record_region_bit_set:
  assumes "unat r < length (regions_failed_evacuation s)"
    and "regions_failed_evacuation s ! unat r"
  shows "record_region s r = Inr (s, False)"
proof -
  have "(regions_failed_evacuation s)[unat r := True] = regions_failed_evacuation s"
    using assms by (simp add: list_update_same_conv)
  then show ?thesis
    using assms by (simp add: record_region_def par_set_bit_def)
qed

lemma record_region_total:
  assumes "tracker_inv s" and "unat r < length (regions_failed_evacuation s)"
  shows "\<exists>s'. record_region s r = Inr (s', \<not> regions_failed_evacuation s ! unat r)"
proof (cases "regions_failed_evacuation s ! unat r")
  case True
  then show ?thesis
    using record_region_bit_set [OF assms(2)] by simp
next
  case False
  then show ?thesis
    using record_region_fresh(1) [OF assms False] by simp
qed

lemma record_region_inv:
  assumes inv: "tracker_inv s" and rr: "record_region s r = Inr (s', b)"
  shows "tracker_inv s'"
    and "failed_regions s' = failed_regions s @ (if b then [r] else [])"
    and "evacuation_failure_notes s' = evacuation_failure_notes s @ (if b then [r] else [])"
proof -
  note c = record_region_cases [OF rr]
  show "tracker_inv s'"
  proof (cases b)
    case True
    then have "\<not> regions_failed_evacuation s ! unat r" using c(2) by simp
    from record_region_fresh(1,3) [OF inv c(1) this] rr show ?thesis by simp
  next
    case False
    then show ?thesis using c(9) inv by simp
  qed
  show "failed_regions s' = failed_regions s @ (if b then [r] else [])"
  proof (cases b)
    case True
    then have "\<not> regions_failed_evacuation s ! unat r" using c(2) by simp
    from record_region_fresh(1,2) [OF inv c(1) this] rr True show ?thesis by simp
  next
    case False
    then show ?thesis using c(9) by simp
  qed
  show "evacuation_failure_notes s' = evacuation_failure_notes s @ (if b then [r] else [])"
    using c(8,9) by (cases b) simp_all
qed

lemma winners_Cons: "winners (r # rs) (b # bs) = (if b then [r] else []) @ winners rs bs"
  by (simp add: winners_def)

lemma set_winners: "set (winners rs outs) = {r. (r, True) \<in> set (zip rs outs)}"
  by (auto simp: winners_def image_iff)

lemma record_all_inv:
  assumes "tracker_inv s" and "record_all s rs = Inr (s', outs)"
  shows "tracker_inv s' \<and> length outs = length rs \<and>
         failed_regions s' = failed_regions s @ winners rs outs \<and>
         evacuation_failure_notes s' = evacuation_failure_notes s @ winners rs outs \<and>
         length (regions_failed_evacuation s') = length (regions_failed_evacuation s) \<and>
         length (evac_failure_regions s') = length (evac_failure_regions s)"
  using assms
proof (induction rs arbitrary: s outs)
  case Nil
  then show ?case by (simp add: winners_def)
next
  case (Cons r rs)
  from Cons.prems(2) obtain s1 b bs
    where rr: "record_region s r = Inr (s1, b)"
      and ra: "record_all s1 rs = Inr (s', bs)"
      and outs: "outs = b # bs"
    by (auto split: sum.splits)
  note i1 = record_region_inv [OF Cons.prems(1) rr]
  note c = record_region_cases(3,4) [OF rr]
  from Cons.IH [OF i1(1) ra] i1(2,3) c outs show ?case
    by (simp add: winners_Cons)
qed

lemma record_all_bits:
  assumes "record_all s rs = Inr (s', outs)"
  shows "length (regions_failed_evacuation s') = length (regions_failed_evacuation s) \<and>
         (\<forall>i < length (regions_failed_evacuation s).
            regions_failed_evacuation s' ! i \<longleftrightarrow>
            regions_failed_evacuation s ! i \<or> i \<in> unat ` set rs)"
  using assms
proof (induction rs arbitrary: s outs)
  case Nil
  then show ?case by simp
next
  case (Cons r rs)
  from Cons.prems obtain s1 b bs
    where rr: "record_region s r = Inr (s1, b)"
      and ra: "record_all s1 rs = Inr (s', bs)"
    by (auto split: sum.splits)
  note c = record_region_cases(1,3) [OF rr]
  from Cons.IH [OF ra] c show ?case
    by (auto simp: nth_list_update)
qed

lemma record_all_total:
  assumes "tracker_inv s" and "\<forall>r\<in>set rs. unat r < length (regions_failed_evacuation s)"
  shows "\<exists>s' outs. record_all s rs = Inr (s', outs)"
  using assms
proof (induction rs arbitrary: s)
  case Nil
  then show ?case by simp
next
  case (Cons r rs)
  have "unat r < length (regions_failed_evacuation s)" using Cons.prems(2) by simp
  from record_region_total [OF Cons.prems(1) this]
  obtain s1 b where rr: "record_region s r = Inr (s1, b)" by blast
  have "tracker_inv s1" using record_region_inv(1) [OF Cons.prems(1) rr] .
  moreover have "\<forall>q\<in>set rs. unat q < length (regions_failed_evacuation s1)"
    using Cons.prems(2) record_region_cases(3) [OF rr] by simp
  ultimately obtain s' outs where "record_all s1 rs = Inr (s', outs)"
    using Cons.IH by blast
  with rr show ?case by simp
qed

lemma unat_inj32: "unat (a :: uint) = unat b \<Longrightarrow> a = b"
  by (simp add: word_unat_eq_iff)

lemma set_winners_nth:
  "length outs = length rs \<Longrightarrow>
   set (winners rs outs) = {r. \<exists>k<length rs. rs ! k = r \<and> outs ! k}"
  unfolding set_winners by (auto simp: in_set_zip)

lemma count_list_distinct:
  "distinct xs \<Longrightarrow> count_list xs x = (if x \<in> set xs then 1 else 0)"
  by (induction xs) auto

lemma idle_failed_regions: "idle s \<Longrightarrow> failed_regions s = []"
  by (simp add: idle_def failed_regions_def)

lemma idle_run:
  assumes "idle s0" and "record_all s0 rs = Inr (s, outs)"
  shows "tracker_inv s" and "length outs = length rs"
    and "failed_regions s = winners rs outs"
    and "evacuation_failure_notes s = evacuation_failure_notes s0 @ winners rs outs"
    and "length (regions_failed_evacuation s) = length (regions_failed_evacuation s0)"
    and "length (evac_failure_regions s) = length (evac_failure_regions s0)"
  using record_all_inv [OF idle_tracker_inv [OF assms(1)] assms(2)]
    idle_failed_regions [OF assms(1)] by simp_all

lemma idle_run_bits:
  assumes "idle s0" and "record_all s0 rs = Inr (s, outs)"
    and "unat r < length (regions_failed_evacuation s)"
  shows "regions_failed_evacuation s ! unat r \<longleftrightarrow> r \<in> set rs"
proof -
  from record_all_bits [OF assms(2)] assms(3)
  have "regions_failed_evacuation s ! unat r \<longleftrightarrow>
        regions_failed_evacuation s0 ! unat r \<or> unat r \<in> unat ` set rs"
    by simp
  moreover have "\<not> regions_failed_evacuation s0 ! unat r"
    using assms(1,3) record_all_bits [OF assms(2)] by (simp add: idle_def list_all_length)
  moreover have "unat r \<in> unat ` set rs \<longleftrightarrow> r \<in> set rs"
    by (auto dest: unat_inj32)
  ultimately show ?thesis by simp
qed

lemma idle_reset:
  "tracker_inv s \<Longrightarrow> idle (reset s)"
  by (simp add: tracker_inv_def idle_def reset_def list_all_length)

lemma record_all_in_range:
  assumes "record_all s rs = Inr (s', outs)"
  shows "\<forall>r\<in>set rs. unat r < length (regions_failed_evacuation s)"
  using assms
proof (induction rs arbitrary: s outs)
  case Nil
  then show ?case by simp
next
  case (Cons r rs)
  from Cons.prems(1) obtain s1 b bs
    where rr: "record_region s r = Inr (s1, b)"
      and ra: "record_all s1 rs = Inr (s', bs)"
    by (auto split: sum.splits)
  from Cons.IH [OF ra] record_region_cases(1,3) [OF rr] show ?case by simp
qed

lemma record_all_outs:
  assumes "record_all s rs = Inr (s', outs)" and "k < length rs"
  shows "outs ! k \<longleftrightarrow>
         \<not> regions_failed_evacuation s ! unat (rs ! k) \<and> rs ! k \<notin> set (take k rs)"
  using assms
proof (induction rs arbitrary: s outs k)
  case Nil
  then show ?case by simp
next
  case (Cons r rs)
  from Cons.prems(1) obtain s1 b bs
    where rr: "record_region s r = Inr (s1, b)"
      and ra: "record_all s1 rs = Inr (s', bs)"
      and outs: "outs = b # bs"
    by (auto split: sum.splits)
  note c = record_region_cases(1,2,3) [OF rr]
  show ?case
  proof (cases k)
    case 0
    then show ?thesis using c(2) outs by simp
  next
    case (Suc j)
    then have j: "j < length rs" using Cons.prems(2) by simp
    have q: "unat (rs ! j) < length (regions_failed_evacuation s)"
      using record_all_in_range [OF ra] c(3) j by simp
    have "regions_failed_evacuation s1 ! unat (rs ! j) \<longleftrightarrow>
          regions_failed_evacuation s ! unat (rs ! j) \<or> rs ! j = r"
      using q c(1,3) by (auto simp: nth_list_update dest: unat_inj32)
    with Cons.IH [OF ra j] Suc outs show ?thesis by auto
  qed
qed

subsection \<open>Helper lemmas for the interleaved calls\<close>

lemma par_invD:
  assumes "par_inv rs (s, ts)"
  shows "length ts = length rs"
    and "length (evac_failure_regions s) = length (regions_failed_evacuation s)"
    and "length (regions_failed_evacuation s) < 2 ^ 32"
    and "\<And>i. i < length ts \<Longrightarrow> unat (rs ! i) < length (regions_failed_evacuation s)"
    and "\<And>i. i < length ts \<Longrightarrow> region_of (ts ! i) = rs ! i"
    and "\<And>i. i < length ts \<Longrightarrow> \<not> is_aborted (ts ! i)"
    and "\<And>i. i < length ts \<Longrightarrow> \<not> is_start (ts ! i) \<Longrightarrow>
           regions_failed_evacuation s ! unat (rs ! i)"
    and "\<And>i j. i < length ts \<Longrightarrow> j < length ts \<Longrightarrow> winner (ts ! i) \<Longrightarrow> winner (ts ! j) \<Longrightarrow>
           rs ! i = rs ! j \<Longrightarrow> i = j"
    and "\<And>i. i < length ts \<Longrightarrow> regions_failed_evacuation s ! unat (rs ! i) \<Longrightarrow>
           \<exists>j<length ts. winner (ts ! j) \<and> rs ! j = rs ! i"
    and "unat (evac_failure_regions_cur_length s) = card {i. i < length ts \<and> passed (ts ! i)}"
    and "\<And>i r offset. i < length ts \<Longrightarrow> ts ! i = Reserved r offset \<Longrightarrow>
           offset < unat (evac_failure_regions_cur_length s)"
  using assms unfolding par_inv_def prod.case by blast+

lemma par_invI:
  assumes "length ts = length rs"
    and "length (evac_failure_regions s) = length (regions_failed_evacuation s)"
    and "length (regions_failed_evacuation s) < 2 ^ 32"
    and "\<And>i. i < length ts \<Longrightarrow> unat (rs ! i) < length (regions_failed_evacuation s)"
    and "\<And>i. i < length ts \<Longrightarrow> region_of (ts ! i) = rs ! i"
    and "\<And>i. i < length ts \<Longrightarrow> \<not> is_aborted (ts ! i)"
    and "\<And>i. i < length ts \<Longrightarrow> \<not> is_start (ts ! i) \<Longrightarrow>
           regions_failed_evacuation s ! unat (rs ! i)"
    and "\<And>i j. i < length ts \<Longrightarrow> j < length ts \<Longrightarrow> winner (ts ! i) \<Longrightarrow> winner (ts ! j) \<Longrightarrow>
           rs ! i = rs ! j \<Longrightarrow> i = j"
    and "\<And>i. i < length ts \<Longrightarrow> regions_failed_evacuation s ! unat (rs ! i) \<Longrightarrow>
           \<exists>j<length ts. winner (ts ! j) \<and> rs ! j = rs ! i"
    and "unat (evac_failure_regions_cur_length s) = card {i. i < length ts \<and> passed (ts ! i)}"
    and "\<And>i r offset. i < length ts \<Longrightarrow> ts ! i = Reserved r offset \<Longrightarrow>
           offset < unat (evac_failure_regions_cur_length s)"
  shows "par_inv rs (s, ts)"
  unfolding par_inv_def prod.case using assms by blast

lemma passed_winner: "passed p \<Longrightarrow> winner p"
  by (cases p) simp_all

lemma card_winners_le:
  assumes inv: "par_inv rs (s, ts)"
  shows "card {i. i < length ts \<and> winner (ts ! i)} \<le> length (regions_failed_evacuation s)"
proof -
  let ?W = "{i. i < length ts \<and> winner (ts ! i)}"
  have inj: "inj_on (\<lambda>i. unat (rs ! i)) ?W"
  proof (rule inj_onI)
    fix i j assume "i \<in> ?W" "j \<in> ?W" "unat (rs ! i) = unat (rs ! j)"
    then show "i = j"
      using par_invD(8) [OF inv, of i j] by (simp add: word_unat_eq_iff)
  qed
  have sub: "(\<lambda>i. unat (rs ! i)) ` ?W \<subseteq> {..<length (regions_failed_evacuation s)}"
    using par_invD(4) [OF inv] by auto
  have "card ?W = card ((\<lambda>i. unat (rs ! i)) ` ?W)"
    using inj by (simp add: card_image)
  also have "\<dots> \<le> card {..<length (regions_failed_evacuation s)}"
    using sub by (intro card_mono) auto
  finally show ?thesis by simp
qed

lemma card_passed_le:
  assumes inv: "par_inv rs (s, ts)"
  shows "unat (evac_failure_regions_cur_length s) \<le> length (regions_failed_evacuation s)"
proof -
  have "{i. i < length ts \<and> passed (ts ! i)} \<subseteq> {i. i < length ts \<and> winner (ts ! i)}"
    by (auto intro: passed_winner)
  then have "card {i. i < length ts \<and> passed (ts ! i)} \<le>
             card {i. i < length ts \<and> winner (ts ! i)}"
    by (intro card_mono) auto
  with card_winners_le [OF inv] par_invD(10) [OF inv] show ?thesis by simp
qed

lemma card_passed_lt:
  assumes inv: "par_inv rs (s, ts)" and k: "k < length ts"
    and w: "winner (ts ! k)" and np: "\<not> passed (ts ! k)"
  shows "unat (evac_failure_regions_cur_length s) < length (regions_failed_evacuation s)"
proof -
  have "{i. i < length ts \<and> passed (ts ! i)} \<subset> {i. i < length ts \<and> winner (ts ! i)}"
    using k w np by (auto intro: passed_winner)
  then have "card {i. i < length ts \<and> passed (ts ! i)} <
             card {i. i < length ts \<and> winner (ts ! i)}"
    by (intro psubset_card_mono) auto
  with card_winners_le [OF inv] par_invD(10) [OF inv] show ?thesis by simp
qed

lemma winner_not_start: "winner p \<Longrightarrow> \<not> is_start p"
  by (cases p) simp_all

lemma par_inv_claim:
  assumes inv: "par_inv rs (s, ts)" and k: "k < length ts"
    and pc: "ts ! k = Start r"
    and clear: "\<not> regions_failed_evacuation s ! unat r"
  shows "par_inv rs (s\<lparr>regions_failed_evacuation := (regions_failed_evacuation s)[unat r := True]\<rparr>,
                     ts[k := Claimed r])"
proof -
  note d = par_invD [OF inv]
  have r: "rs ! k = r" using d(5) [OF k] pc by simp
  have rk: "unat r < length (regions_failed_evacuation s)" using d(4) [OF k] r by simp
  have others: "\<not> winner (ts ! j)" if "j < length ts" "rs ! j = r" for j
  proof
    assume "winner (ts ! j)"
    then have "\<not> is_start (ts ! j)" by (rule winner_not_start)
    from d(7) [OF that(1) this] that(2) clear show False by simp
  qed
  have pset: "{i. i < length (ts[k := Claimed r]) \<and> passed (ts[k := Claimed r] ! i)} =
              {i. i < length ts \<and> passed (ts ! i)}"
    using k pc by (auto simp: nth_list_update)
  show ?thesis
  proof (rule par_invI)
    show "unat (evac_failure_regions_cur_length
              (s\<lparr>regions_failed_evacuation := (regions_failed_evacuation s)[unat r := True]\<rparr>)) =
          card {i. i < length (ts[k := Claimed r]) \<and> passed (ts[k := Claimed r] ! i)}"
      unfolding pset using d(10) by simp
  next
    fix i j
    assume "i < length (ts[k := Claimed r])" "j < length (ts[k := Claimed r])"
      "winner (ts[k := Claimed r] ! i)" "winner (ts[k := Claimed r] ! j)" "rs ! i = rs ! j"
    then show "i = j"
      using d(8) [of i j] others [of i] others [of j] r k
      by (auto simp: nth_list_update split: if_splits)
  next
    fix i
    assume i: "i < length (ts[k := Claimed r])"
      and b: "regions_failed_evacuation
           (s\<lparr>regions_failed_evacuation := (regions_failed_evacuation s)[unat r := True]\<rparr>) !
          unat (rs ! i)"
    show "\<exists>j<length (ts[k := Claimed r]). winner (ts[k := Claimed r] ! j) \<and> rs ! j = rs ! i"
    proof (cases "rs ! i = r")
      case True
      then show ?thesis using k r by (intro exI [of _ k]) simp
    next
      case False
      then have "regions_failed_evacuation s ! unat (rs ! i)"
        using b rk by (auto simp: nth_list_update dest: unat_inj32 split: if_splits)
      from d(9) [OF _ this] i obtain j where j: "j < length ts" "winner (ts ! j)" "rs ! j = rs ! i"
        by auto
      then have "j \<noteq> k" using pc by auto
      with j show ?thesis by (intro exI [of _ j]) simp
    qed
  qed (use d k pc r rk in \<open>auto simp: nth_list_update split: if_splits\<close>)
qed

lemma winner_update_old:
  assumes "k < length ts" and "winner p \<Longrightarrow> winner (ts ! k)"
    and "i < length (ts[k := p])" and "winner (ts[k := p] ! i)"
  shows "winner (ts ! i)"
  using assms by (cases "i = k") simp_all

lemma unique_winner_update:
  assumes k: "k < length ts" and p: "winner p \<Longrightarrow> winner (ts ! k)"
    and u: "\<And>i j. i < length ts \<Longrightarrow> j < length ts \<Longrightarrow> winner (ts ! i) \<Longrightarrow>
              winner (ts ! j) \<Longrightarrow> rs ! i = rs ! j \<Longrightarrow> i = j"
    and i: "i < length (ts[k := p])" and j: "j < length (ts[k := p])"
    and wi: "winner (ts[k := p] ! i)" and wj: "winner (ts[k := p] ! j)"
    and eq: "(rs :: uint list) ! i = rs ! j"
  shows "i = j"
proof -
  have "winner (ts ! i)" using winner_update_old [OF k p i wi] .
  moreover have "winner (ts ! j)" using winner_update_old [OF k p j wj] .
  ultimately show ?thesis using u [of i j] i j eq by simp
qed

lemma par_inv_lose:
  assumes inv: "par_inv rs (s, ts)" and k: "k < length ts"
    and pc: "ts ! k = Start r"
    and set: "regions_failed_evacuation s ! unat r"
  shows "par_inv rs (s, ts[k := Returned r False])"
proof -
  note d = par_invD [OF inv]
  have r: "rs ! k = r" using d(5) [OF k] pc by simp
  have pset: "{i. i < length (ts[k := Returned r False]) \<and> passed (ts[k := Returned r False] ! i)} =
              {i. i < length ts \<and> passed (ts ! i)}"
    using k pc by (auto simp: nth_list_update)
  show ?thesis
  proof (rule par_invI)
    show "unat (evac_failure_regions_cur_length s) =
          card {i. i < length (ts[k := Returned r False]) \<and> passed (ts[k := Returned r False] ! i)}"
      unfolding pset using d(10) by simp
  next
    fix i j
    assume a: "i < length (ts[k := Returned r False])" "j < length (ts[k := Returned r False])"
      "winner (ts[k := Returned r False] ! i)" "winner (ts[k := Returned r False] ! j)"
      "rs ! i = rs ! j"
    have p: "winner (Returned r False) \<Longrightarrow> winner (ts ! k)" using pc by simp
    show "i = j" by (rule unique_winner_update [OF k p d(8) a])
  next
    fix i
    assume i: "i < length (ts[k := Returned r False])"
      and b: "regions_failed_evacuation s ! unat (rs ! i)"
    from d(9) [OF _ b] i obtain j where j: "j < length ts" "winner (ts ! j)" "rs ! j = rs ! i"
      by auto
    then have "j \<noteq> k" using pc by auto
    with j show "\<exists>j<length (ts[k := Returned r False]).
                   winner (ts[k := Returned r False] ! j) \<and> rs ! j = rs ! i"
      by (intro exI [of _ j]) simp
  qed (use d k pc r set in \<open>auto simp: nth_list_update split: if_splits\<close>)
qed

lemma par_inv_reserve:
  assumes inv: "par_inv rs (s, ts)" and k: "k < length ts"
    and pc: "ts ! k = Claimed r"
  shows "par_inv rs (s\<lparr>evac_failure_regions_cur_length := evac_failure_regions_cur_length s + 1\<rparr>,
                     ts[k := Reserved r (unat (evac_failure_regions_cur_length s))])"
    (is "par_inv rs (?s', ?ts')")
proof -
  note d = par_invD [OF inv]
  let ?c = "evac_failure_regions_cur_length s"
  have r: "rs ! k = r" using d(5) [OF k] pc by simp
  have lt: "unat ?c < length (regions_failed_evacuation s)"
    using card_passed_lt [OF inv k] pc by simp
  have "unat ?c + unat (1 :: uint) < 2 ^ LENGTH(32)"
    using lt d(3) by simp
  then have "unat (?c + 1) = unat ?c + unat (1 :: uint)"
    by (simp only: unat_add_lem)
  then have suc: "unat (?c + 1) = Suc (unat ?c)" by simp
  have pset: "{i. i < length ?ts' \<and> passed (?ts' ! i)} =
              insert k {i. i < length ts \<and> passed (ts ! i)}"
    using k by (auto simp: nth_list_update)
  have knot: "k \<notin> {i. i < length ts \<and> passed (ts ! i)}"
    using pc by simp
  show ?thesis
  proof (rule par_invI)
    show "unat (evac_failure_regions_cur_length ?s') =
          card {i. i < length ?ts' \<and> passed (?ts' ! i)}"
      unfolding pset using d(10) suc knot by simp
  next
    fix i j
    assume a: "i < length ?ts'" "j < length ?ts'" "winner (?ts' ! i)" "winner (?ts' ! j)"
      "rs ! i = rs ! j"
    have p: "winner (Reserved r (unat (evac_failure_regions_cur_length s))) \<Longrightarrow> winner (ts ! k)" using pc by simp
    show "i = j" by (rule unique_winner_update [OF k p d(8) a])
  next
    fix i
    assume i: "i < length ?ts'"
      and b: "regions_failed_evacuation ?s' ! unat (rs ! i)"
    from d(9) [of i] i b obtain j where j: "j < length ts" "winner (ts ! j)" "rs ! j = rs ! i"
      by auto
    then show "\<exists>j<length ?ts'. winner (?ts' ! j) \<and> rs ! j = rs ! i"
      using k by (intro exI [of _ j]) (auto simp: nth_list_update)
  next
    fix i q offset
    assume "i < length ?ts'" "?ts' ! i = Reserved q offset"
    then show "offset < unat (evac_failure_regions_cur_length ?s')"
      using d(11) [of i q offset] suc k
      by (auto simp: nth_list_update less_Suc_eq split: if_splits)
  qed (use d k pc r in \<open>auto simp: nth_list_update split: if_splits\<close>)
qed

lemma par_inv_store:
  assumes inv: "par_inv rs (s, ts)" and k: "k < length ts"
    and pc: "ts ! k = Reserved r offset"
  shows "offset < length (evac_failure_regions s)"
    and "par_inv rs (s\<lparr>evac_failure_regions := (evac_failure_regions s)[offset := r]\<rparr>,
                     ts[k := Stored r])"
    (is "par_inv rs (?s', ?ts')")
proof -
  note d = par_invD [OF inv]
  have r: "rs ! k = r" using d(5) [OF k] pc by simp
  show "offset < length (evac_failure_regions s)"
    using d(11) [OF k pc] card_passed_le [OF inv] d(2) by simp
  have pset: "{i. i < length ?ts' \<and> passed (?ts' ! i)} = {i. i < length ts \<and> passed (ts ! i)}"
    using k pc by (auto simp: nth_list_update)
  show "par_inv rs (?s', ?ts')"
  proof (rule par_invI)
    show "unat (evac_failure_regions_cur_length ?s') =
          card {i. i < length ?ts' \<and> passed (?ts' ! i)}"
      unfolding pset using d(10) by simp
  next
    fix i j
    assume a: "i < length ?ts'" "j < length ?ts'" "winner (?ts' ! i)" "winner (?ts' ! j)"
      "rs ! i = rs ! j"
    have p: "winner (Stored r) \<Longrightarrow> winner (ts ! k)" using pc by simp
    show "i = j" by (rule unique_winner_update [OF k p d(8) a])
  next
    fix i
    assume i: "i < length ?ts'"
      and b: "regions_failed_evacuation ?s' ! unat (rs ! i)"
    from d(9) [of i] i b obtain j where j: "j < length ts" "winner (ts ! j)" "rs ! j = rs ! i"
      by auto
    then show "\<exists>j<length ?ts'. winner (?ts' ! j) \<and> rs ! j = rs ! i"
      using k by (intro exI [of _ j]) (auto simp: nth_list_update)
  qed (use d k pc r in \<open>auto simp: nth_list_update split: if_splits\<close>)
qed

lemma par_inv_notify:
  assumes inv: "par_inv rs (s, ts)" and k: "k < length ts"
    and pc: "ts ! k = Stored r"
  shows "par_inv rs (note_evacuation_failure s r, ts[k := Returned r True])"
    (is "par_inv rs (?s', ?ts')")
proof -
  note d = par_invD [OF inv]
  have r: "rs ! k = r" using d(5) [OF k] pc by simp
  have pset: "{i. i < length ?ts' \<and> passed (?ts' ! i)} = {i. i < length ts \<and> passed (ts ! i)}"
    using k pc by (auto simp: nth_list_update)
  show "par_inv rs (?s', ?ts')"
  proof (rule par_invI)
    show "unat (evac_failure_regions_cur_length ?s') =
          card {i. i < length ?ts' \<and> passed (?ts' ! i)}"
      unfolding pset using d(10) by (simp add: note_evacuation_failure_def)
  next
    fix i j
    assume a: "i < length ?ts'" "j < length ?ts'" "winner (?ts' ! i)" "winner (?ts' ! j)"
      "rs ! i = rs ! j"
    have p: "winner (Returned r True) \<Longrightarrow> winner (ts ! k)" using pc by simp
    show "i = j" by (rule unique_winner_update [OF k p d(8) a])
  next
    fix i
    assume i: "i < length ?ts'"
      and b: "regions_failed_evacuation ?s' ! unat (rs ! i)"
    from d(9) [of i] i b obtain j where j: "j < length ts" "winner (ts ! j)" "rs ! j = rs ! i"
      by (auto simp: note_evacuation_failure_def)
    then show "\<exists>j<length ?ts'. winner (?ts' ! j) \<and> rs ! j = rs ! i"
      using k by (intro exI [of _ j]) (auto simp: nth_list_update)
  qed (use d k pc r in \<open>auto simp: nth_list_update note_evacuation_failure_def split: if_splits\<close>)
qed

lemma par_inv_step:
  assumes inv: "par_inv rs c"
  shows "par_inv rs (step c k)"
proof -
  obtain s ts where c: "c = (s, ts)" by (cases c)
  note inv' = inv [unfolded c]
  note d = par_invD [OF inv']
  show ?thesis
  proof (cases "k < length ts")
    case False
    then show ?thesis using inv c by (simp add: step_def)
  next
    case k: True
    show ?thesis
    proof (cases "ts ! k")
      case (Start r)
      have rk: "unat r < length (regions_failed_evacuation s)"
        using d(4) [OF k] d(5) [OF k] Start by simp
      show ?thesis
      proof (cases "regions_failed_evacuation s ! unat r")
        case True
        have "(regions_failed_evacuation s)[unat r := True] = regions_failed_evacuation s"
          using True rk by (simp add: list_update_same_conv)
        then have "step c k = (s, ts[k := Returned r False])"
          using k Start True rk by (simp add: step_def c par_set_bit_def)
        with par_inv_lose [OF inv' k Start True] show ?thesis by simp
      next
        case False
        have "step c k =
          (s\<lparr>regions_failed_evacuation := (regions_failed_evacuation s)[unat r := True]\<rparr>,
           ts[k := Claimed r])"
          using k Start False rk by (simp add: step_def c par_set_bit_def)
        with par_inv_claim [OF inv' k Start False] show ?thesis by simp
      qed
    next
      case (Claimed r)
      have "step c k =
        (s\<lparr>evac_failure_regions_cur_length := evac_failure_regions_cur_length s + 1\<rparr>,
         ts[k := Reserved r (unat (evac_failure_regions_cur_length s))])"
        using k Claimed by (simp add: step_def c fetch_then_add_def)
      with par_inv_reserve [OF inv' k Claimed] show ?thesis by simp
    next
      case (Reserved r offset)
      note st = par_inv_store [OF inv' k Reserved]
      have "step c k =
        (s\<lparr>evac_failure_regions := (evac_failure_regions s)[offset := r]\<rparr>, ts[k := Stored r])"
        using k Reserved st(1) by (simp add: step_def c)
      with st(2) show ?thesis by simp
    next
      case (Stored r)
      have "step c k = (note_evacuation_failure s r, ts[k := Returned r True])"
        using k Stored by (simp add: step_def c)
      with par_inv_notify [OF inv' k Stored] show ?thesis by simp
    next
      case (Returned r b)
      then have "step c k = c" using k list_update_id [of ts k] by (simp add: step_def c)
      with inv show ?thesis by simp
    next
      case (Aborted r e)
      then have "step c k = c" using k list_update_id [of ts k] by (simp add: step_def c)
      with inv show ?thesis by simp
    qed
  qed
qed

lemma par_inv_exec: "par_inv rs c \<Longrightarrow> par_inv rs (exec c sch)"
  by (induction sch arbitrary: c) (simp_all add: par_inv_step)

lemma par_inv_init:
  assumes "idle s0" and "\<forall>r\<in>set rs. unat r < length (regions_failed_evacuation s0)"
  shows "par_inv rs (s0, map Start rs)"
proof (rule par_invI)
  show "unat (evac_failure_regions_cur_length s0) =
        card {i. i < length (map Start rs) \<and> passed (map Start rs ! i)}"
    using assms(1) by (simp add: idle_def)
qed (use assms in \<open>auto simp: idle_def list_all_length\<close>)

lemma count_list_filter: "count_list xs x = length (filter (\<lambda>y. y = x) xs)"
  by (induction xs) simp_all

lemma length_step: "length (snd (step c k)) = length (snd c)"
  by (cases c) (simp add: step_def split: prod.splits)

lemma remaining_thread_step:
  "remaining (snd (thread_step s p)) \<le> remaining p - 1"
  by (cases p) (simp_all add: par_set_bit_def fetch_then_add_def split: sum.splits prod.splits)

lemma remaining_step:
  assumes "i < length (snd c)"
  shows "remaining (snd (step c k) ! i) \<le> remaining (snd c ! i) - (if i = k then 1 else 0)"
proof -
  obtain s ts where c: "c = (s, ts)" by (cases c)
  show ?thesis
  proof (cases "k < length ts")
    case False
    then show ?thesis using assms by (auto simp: c step_def)
  next
    case True
    obtain s' p where ts: "thread_step s (ts ! k) = (s', p)" by (cases "thread_step s (ts ! k)")
    have "remaining p \<le> remaining (ts ! k) - 1"
      using remaining_thread_step [of s "ts ! k"] ts by simp
    then show ?thesis
      using True assms ts by (simp add: c step_def nth_list_update)
  qed
qed

lemma remaining_exec:
  assumes "i < length (snd c)"
  shows "remaining (snd (exec c sch) ! i) \<le> remaining (snd c ! i) - count_list sch i"
  using assms
proof (induction sch arbitrary: c)
  case Nil
  then show ?case by simp
next
  case (Cons k sch)
  have i: "i < length (snd (step c k))" using Cons.prems by (simp add: length_step)
  from Cons.IH [OF i] remaining_step [OF Cons.prems, of k] show ?case by auto
qed

lemma finished_returned:
  assumes inv: "par_inv rs (s, ts)" and i: "i < length ts" and z: "remaining (ts ! i) = 0"
  shows "\<exists>b. ts ! i = Returned (rs ! i) b"
  using par_invD(5,6) [OF inv i] z by (cases "ts ! i") simp_all

lemma exactly_one_winner:
  assumes inv: "par_inv rs (s, ts)"
    and fin: "\<forall>i<length rs. \<exists>b. ts ! i = Returned (rs ! i) b"
    and r: "r \<in> set rs"
  shows "length (filter (\<lambda>p. p = Returned r True) ts) = 1"
    and "length (filter (\<lambda>p. p = Returned r False) ts) = count_list rs r - 1"
proof -
  note d = par_invD [OF inv]
  let ?T = "{i. i < length ts \<and> ts ! i = Returned r True}"
  let ?F = "{i. i < length ts \<and> ts ! i = Returned r False}"
  from r obtain k where k: "k < length rs" "rs ! k = r" by (auto simp: in_set_conv_nth)
  from fin k obtain b where "ts ! k = Returned r b" by auto
  then have "\<not> is_start (ts ! k)" by simp
  from d(7) [OF _ this] k d(1) have "regions_failed_evacuation s ! unat r" by simp
  from d(9) [of k] this k d(1) obtain j
    where j: "j < length ts" "winner (ts ! j)" "rs ! j = r" by auto
  from fin j d(1) have tj: "ts ! j = Returned r True" by auto
  have "?T = {j}"
  proof (rule equalityI; rule subsetI)
    fix i assume "i \<in> ?T"
    then have "i < length ts" "winner (ts ! i)" "rs ! i = r"
      using d(5) [of i] by auto
    from d(8) [OF this(1) j(1) this(2) j(2)] this(3) j(3) show "i \<in> {j}" by simp
  next
    fix i assume "i \<in> {j}"
    then show "i \<in> ?T" using j(1) tj by simp
  qed
  then have T: "card ?T = 1" by simp
  then show "length (filter (\<lambda>p. p = Returned r True) ts) = 1"
    by (simp add: length_filter_conv_card)
  have "{i. i < length rs \<and> rs ! i = r} = ?T \<union> ?F"
  proof (rule equalityI; rule subsetI)
    fix i assume "i \<in> {i. i < length rs \<and> rs ! i = r}"
    then show "i \<in> ?T \<union> ?F" using fin d(1) by auto
  next
    fix i assume "i \<in> ?T \<union> ?F"
    then show "i \<in> {i. i < length rs \<and> rs ! i = r}" using d(5) [of i] d(1) by auto
  qed
  moreover have "?T \<inter> ?F = {}" by auto
  ultimately have "card {i. i < length rs \<and> rs ! i = r} = card ?T + card ?F"
    by (simp add: card_Un_disjoint)
  then have "count_list rs r = 1 + card ?F"
    using T by (simp add: count_list_filter length_filter_conv_card)
  then show "length (filter (\<lambda>p. p = Returned r False) ts) = count_list rs r - 1"
    by (simp add: length_filter_conv_card)
qed

text \<open>
  A call that runs alone, four steps in a row, does what \<open>record_region\<close> does: the two
  descriptions of \<open>record\<close> agree.
\<close>

lemma exec_alone_returns:
  assumes "record_region s r = Inr (s', b)"
  shows "exec (s, [Start r]) [0, 0, 0, 0] = (s', [Returned r b])"
  using assms
  by (auto simp: record_region_def par_set_bit_def fetch_then_add_def step_def Let_def
      split: if_splits)

lemma exec_alone_aborts:
  assumes "record_region s r = Inl e"
  shows "snd (exec (s, [Start r]) [0, 0, 0, 0]) = [Aborted r e]"
  using assms
  by (auto simp: record_region_def par_set_bit_def fetch_then_add_def step_def Let_def
      split: if_splits)

text \<open>The scenario, with the three calls interleaved.\<close>

lemma scenario_exec:
  "exec (scenario_idle, map Start [2, 2, 0]) [1, 0, 2, 2, 1, 0, 1, 0, 2, 1, 0, 2] =
     (\<lparr>regions_failed_evacuation = [True, False, True, False],
       evac_failure_regions = [0, 2, 0, 0],
       evac_failure_regions_cur_length = 2,
       evacuation_failure_notes = [2, 0]\<rparr>,
      [Returned 2 False, Returned 2 True, Returned 0 True])"
  by (simp add: step_def par_set_bit_def fetch_then_add_def note_evacuation_failure_def
      scenario_idle_def)

lemma idle_scenario_idle: "idle scenario_idle"
  by (simp add: idle_def scenario_idle_def)

lemma scenario_run:
  "record_all scenario_idle [2, 2, 0] = Inr (scenario_sealed, [True, False, True])"
  by (simp add: record_region_def par_set_bit_def fetch_then_add_def
      note_evacuation_failure_def scenario_idle_def scenario_sealed_def)

subsection \<open>The claims\<close>

text \<open>
  C1: in every state reachable in a Recording phase (an idle state followed by any calls
  of \<open>record\<close>) and for every region index within the bitmap, \<open>record\<close> returns, and it
  returns true if and only if the presence bit of the region was clear just before the
  call; after the call the bit is set. The bit was set before the call exactly when an
  earlier call of the phase recorded the same region.
\<close>

theorem record_region_true_iff_bit_clear:
  assumes "idle s0" and "record_all s0 rs = Inr (s, outs)"
    and "unat r < length (regions_failed_evacuation s)"
  shows "\<exists>s'. record_region s r = Inr (s', \<not> regions_failed_evacuation s ! unat r) \<and>
              regions_failed_evacuation s' ! unat r \<and>
              (regions_failed_evacuation s ! unat r \<longleftrightarrow> r \<in> set rs)"
proof -
  from record_region_total [OF idle_run(1) [OF assms(1,2)] assms(3)]
  obtain s' where rr: "record_region s r = Inr (s', \<not> regions_failed_evacuation s ! unat r)"
    by blast
  have "regions_failed_evacuation s' ! unat r"
    using record_region_cases(3) [OF rr] assms(3) by simp
  with rr idle_run_bits [OF assms] show ?thesis by blast
qed

theorem record_region_true_iff_bit_clear_witness:
  "idle scenario_idle \<and>
   record_all scenario_idle [2, 2, 0] = Inr (scenario_sealed, [True, False, True]) \<and>
   (\<exists>s'. record_region scenario_sealed 3 = Inr (s', True) \<and>
         regions_failed_evacuation s' ! 3) \<and>
   (\<exists>s'. record_region scenario_sealed 2 = Inr (s', False))"
proof -
  have 3: "unat (3 :: uint) < length (regions_failed_evacuation scenario_sealed)"
    and 2: "unat (2 :: uint) < length (regions_failed_evacuation scenario_sealed)"
    by (simp_all add: scenario_sealed_def)
  have b3: "\<not> regions_failed_evacuation scenario_sealed ! unat (3 :: uint)"
    and b2: "regions_failed_evacuation scenario_sealed ! unat (2 :: uint)"
    by (simp_all add: scenario_sealed_def)
  from record_region_true_iff_bit_clear [OF idle_scenario_idle scenario_run 3] b3
  have "\<exists>s'. record_region scenario_sealed 3 = Inr (s', True) \<and>
         regions_failed_evacuation s' ! 3"
    by simp
  moreover
  from record_region_true_iff_bit_clear [OF idle_scenario_idle scenario_run 2] b2
  have "\<exists>s'. record_region scenario_sealed 2 = Inr (s', False)"
    by auto
  ultimately show ?thesis
    using idle_scenario_idle scenario_run by blast
qed

text \<open>
  C2: calls of \<open>record\<close> run concurrently from an idle state, under any schedule, with
  region indices within the bitmap. No call fails, and a call that has been given its
  four steps has returned. Once all calls have returned, for every region exactly one
  of the \<open>N\<close> calls made with its index has returned true and the other \<open>N - 1\<close> have
  returned false.
\<close>

theorem record_exactly_one_winner:
  assumes "idle s0"
    and "\<forall>r\<in>set rs. unat r < length (regions_failed_evacuation s0)"
    and "exec (s0, map Start rs) sch = (s, ts)"
  shows "length ts = length rs \<and>
         (\<forall>i<length rs. \<not> is_aborted (ts ! i)) \<and>
         (\<forall>i<length rs. 4 \<le> count_list sch i \<longrightarrow> (\<exists>b. ts ! i = Returned (rs ! i) b)) \<and>
         ((\<forall>i<length rs. \<exists>b. ts ! i = Returned (rs ! i) b) \<longrightarrow>
          (\<forall>r\<in>set rs.
             length (filter (\<lambda>p. p = Returned r True) ts) = 1 \<and>
             length (filter (\<lambda>p. p = Returned r False) ts) = count_list rs r - 1))"
proof -
  have inv: "par_inv rs (s, ts)"
    using par_inv_exec [OF par_inv_init [OF assms(1,2)], of sch] assms(3) by simp
  note d = par_invD [OF inv]
  have ret: "\<exists>b. ts ! i = Returned (rs ! i) b" if i: "i < length rs" and f: "4 \<le> count_list sch i" for i
  proof -
    have "remaining (snd (exec (s0, map Start rs) sch) ! i) \<le>
          remaining (snd (s0, map Start rs) ! i) - count_list sch i"
      using i by (intro remaining_exec) simp
    then have "remaining (ts ! i) = 0"
      using assms(3) i f by simp
    from finished_returned [OF inv _ this] i d(1) show ?thesis by simp
  qed
  have "\<forall>i<length rs. \<not> is_aborted (ts ! i)" using d(6) d(1) by simp
  with d(1) ret exactly_one_winner [OF inv] show ?thesis by blast
qed

theorem record_exactly_one_winner_witness:
  "idle scenario_idle \<and>
   exec (scenario_idle, map Start [2, 2, 0]) [1, 0, 2, 2, 1, 0, 1, 0, 2, 1, 0, 2] =
     (\<lparr>regions_failed_evacuation = [True, False, True, False],
       evac_failure_regions = [0, 2, 0, 0],
       evac_failure_regions_cur_length = 2,
       evacuation_failure_notes = [2, 0]\<rparr>,
      [Returned 2 False, Returned 2 True, Returned 0 True]) \<and>
   length (filter (\<lambda>p. p = Returned 2 True)
             [Returned 2 False, Returned 2 True, Returned 0 True]) = 1 \<and>
   length (filter (\<lambda>p. p = Returned 2 False)
             [Returned 2 False, Returned 2 True, Returned 0 True]) = count_list [2, 2, 0 :: uint] 2 - 1"
proof -
  have range: "\<forall>r\<in>set [2, 2, 0 :: uint]. unat r < length (regions_failed_evacuation scenario_idle)"
    by (simp add: scenario_idle_def)
  have fin: "\<forall>i<length [2, 2, 0 :: uint].
               \<exists>b. [Returned 2 False, Returned 2 True, Returned 0 True] ! i =
                    Returned ([2, 2, 0] ! i) b"
    by (auto simp: less_Suc_eq)
  have mem: "(2 :: uint) \<in> set [2, 2, 0]" by simp
  from record_exactly_one_winner [OF idle_scenario_idle range scenario_exec] fin mem
  have "length (filter (\<lambda>p. p = Returned 2 True)
             [Returned 2 False, Returned 2 True, Returned 0 True]) = 1 \<and>
        length (filter (\<lambda>p. p = Returned 2 False)
             [Returned 2 False, Returned 2 True, Returned 0 True]) = count_list [2, 2, 0 :: uint] 2 - 1"
    by blast
  with idle_scenario_idle scenario_exec show ?thesis by blast
qed

text \<open>
  C3: a call of \<open>record\<close> that returns true has stored the region index into the array at
  the slot given by the value the counter had before the call, a slot within the array,
  has incremented the counter, and has notified the region once (the trace grows by this
  one region). A call that returns false notifies nobody. Over the phase so far, each
  region has been notified once if some call for it returned true, and not at all
  otherwise.
\<close>

theorem record_region_appends_and_notifies:
  assumes "idle s0" and "record_all s0 rs = Inr (s, outs)"
    and "record_region s r = Inr (s', b)"
  shows "(b \<longrightarrow>
            unat (evac_failure_regions_cur_length s) < length (evac_failure_regions s) \<and>
            evac_failure_regions s' =
              (evac_failure_regions s)[unat (evac_failure_regions_cur_length s) := r] \<and>
            evac_failure_regions_cur_length s' = evac_failure_regions_cur_length s + 1 \<and>
            evacuation_failure_notes s' = evacuation_failure_notes s @ [r]) \<and>
         (\<not> b \<longrightarrow> evacuation_failure_notes s' = evacuation_failure_notes s) \<and>
         (\<forall>q. count_list (evacuation_failure_notes s) q =
               count_list (evacuation_failure_notes s0) q +
               (if \<exists>k<length rs. rs ! k = q \<and> outs ! k then 1 else 0))"
proof -
  note c = record_region_cases [OF assms(3)]
  note run = idle_run [OF assms(1,2)]
  have d: "distinct (winners rs outs)"
    using run(1,3) by (simp add: tracker_inv_def)
  have "count_list (evacuation_failure_notes s) q =
        count_list (evacuation_failure_notes s0) q +
        (if \<exists>k<length rs. rs ! k = q \<and> outs ! k then 1 else 0)" for q
    using count_list_distinct [OF d, of q] set_winners_nth [OF run(2)] run(4) by simp
  with c(5,6,7,8,9) show ?thesis by blast
qed

theorem record_region_appends_and_notifies_witness:
  "idle scenario_idle \<and>
   record_all scenario_idle [2, 2, 0] = Inr (scenario_sealed, [True, False, True]) \<and>
   record_region scenario_sealed 3 =
     Inr (\<lparr>regions_failed_evacuation = [True, False, True, True],
           evac_failure_regions = [2, 0, 3, 0],
           evac_failure_regions_cur_length = 3,
           evacuation_failure_notes = [2, 0, 3]\<rparr>, True) \<and>
   count_list (evacuation_failure_notes scenario_sealed) 2 = 1 \<and>
   count_list (evacuation_failure_notes scenario_sealed) 1 = 0"
proof -
  have rr: "record_region scenario_sealed 3 =
     Inr (\<lparr>regions_failed_evacuation = [True, False, True, True],
           evac_failure_regions = [2, 0, 3, 0],
           evac_failure_regions_cur_length = 3,
           evacuation_failure_notes = [2, 0, 3]\<rparr>, True)"
    by (simp add: record_region_def par_set_bit_def fetch_then_add_def
        note_evacuation_failure_def scenario_sealed_def)
  from record_region_appends_and_notifies [OF idle_scenario_idle scenario_run rr]
  have "\<forall>q. count_list (evacuation_failure_notes scenario_sealed) q =
          count_list (evacuation_failure_notes scenario_idle) q +
          (if \<exists>k<length [2, 2, 0 :: uint]. [2, 2, 0] ! k = q \<and> [True, False, True] ! k
           then 1 else 0)"
    by blast
  then have "count_list (evacuation_failure_notes scenario_sealed) 2 = 1"
    and "count_list (evacuation_failure_notes scenario_sealed) 1 = 0"
    by (simp_all add: scenario_sealed_def)
  with rr idle_scenario_idle scenario_run show ?thesis by simp
qed

text \<open>
  C5: after any sequence of calls of \<open>record\<close> in a Recording phase, the failed-region
  sequence (the array entries below the counter) holds no region index twice.
\<close>

theorem failed_regions_distinct:
  assumes "idle s0" and "record_all s0 rs = Inr (s, outs)"
  shows "distinct (failed_regions s)"
  using idle_run(1) [OF assms] by (simp add: tracker_inv_def)

theorem failed_regions_distinct_witness:
  "idle scenario_idle \<and>
   record_all scenario_idle [2, 2, 0] = Inr (scenario_sealed, [True, False, True]) \<and>
   failed_regions scenario_sealed = [2, 0] \<and>
   distinct (failed_regions scenario_sealed)"
  using failed_regions_distinct [OF idle_scenario_idle scenario_run]
    idle_scenario_idle scenario_run
  by (simp add: failed_regions_def scenario_sealed_def)

text \<open>
  C6: after any sequence of calls of \<open>record\<close> in a Recording phase, with \<open>K\<close> the number
  of distinct region indices for which some call returned true, the counter equals \<open>K\<close>,
  \<open>K\<close> is within the array, and the array entries at the indices \<open>0\<close> to \<open>K - 1\<close> are
  these regions, one index each: no gap and no index shared.
\<close>

theorem failed_regions_dense:
  assumes "idle s0" and "record_all s0 rs = Inr (s, outs)"
    and "K = card {r. \<exists>k<length rs. rs ! k = r \<and> outs ! k}"
  shows "unat (evac_failure_regions_cur_length s) = K \<and>
         K \<le> length (evac_failure_regions s) \<and>
         bij_betw (\<lambda>i. evac_failure_regions s ! i) {..<K}
           {r. \<exists>k<length rs. rs ! k = r \<and> outs ! k}"
proof -
  note run = idle_run [OF assms(1,2)]
  let ?W = "{r. \<exists>k<length rs. rs ! k = r \<and> outs ! k}"
  let ?c = "unat (evac_failure_regions_cur_length s)"
  have le: "?c \<le> length (evac_failure_regions s)"
    using run(1) by (simp add: tracker_inv_def)
  have d: "distinct (failed_regions s)"
    using run(1) by (simp add: tracker_inv_def)
  have len: "length (failed_regions s) = ?c"
    using le by (simp add: failed_regions_def)
  have W: "set (failed_regions s) = ?W"
    using run(3) set_winners_nth [OF run(2)] by simp
  have K: "?c = K"
    using distinct_card [OF d] W len assms(3) by simp
  have "bij_betw ((!) (failed_regions s)) {..<K} ?W"
    using d len K W by (intro bij_betw_nth) auto
  moreover have "failed_regions s ! i = evac_failure_regions s ! i" if "i \<in> {..<K}" for i
    using that K by (simp add: failed_regions_def)
  ultimately have "bij_betw (\<lambda>i. evac_failure_regions s ! i) {..<K} ?W"
    using bij_betw_cong [of "{..<K}" "(!) (failed_regions s)" "(!) (evac_failure_regions s)" ?W]
    by blast
  with K le show ?thesis by simp
qed

theorem failed_regions_dense_witness:
  "idle scenario_idle \<and>
   record_all scenario_idle [2, 2, 0] = Inr (scenario_sealed, [True, False, True]) \<and>
   unat (evac_failure_regions_cur_length scenario_sealed) =
     card {r :: uint. \<exists>k<length [2, 2, 0 :: uint]. [2, 2, 0] ! k = r \<and> [True, False, True] ! k} \<and>
   bij_betw (\<lambda>i. evac_failure_regions scenario_sealed ! i)
     {..<card {r :: uint. \<exists>k<length [2, 2, 0 :: uint]. [2, 2, 0] ! k = r \<and> [True, False, True] ! k}}
     {r :: uint. \<exists>k<length [2, 2, 0 :: uint]. [2, 2, 0] ! k = r \<and> [True, False, True] ! k}"
  using failed_regions_dense [OF idle_scenario_idle scenario_run refl]
    idle_scenario_idle scenario_run
  by blast

text \<open>
  C7: from an idle state, whose array is as long as its bitmap, every sequence of calls
  of \<open>record\<close> with region indices within the bitmap runs to its end without error, so
  no call reaches the store beyond the array; after every prefix of the sequence the
  array still has the length of the bitmap and the counter does not exceed it.
\<close>

theorem cur_length_within_capacity:
  assumes "idle s0" and "\<forall>r\<in>set rs. unat r < length (regions_failed_evacuation s0)"
  shows "\<exists>s outs. record_all s0 (take n rs) = Inr (s, outs) \<and>
           length (evac_failure_regions s) = length (regions_failed_evacuation s0) \<and>
           unat (evac_failure_regions_cur_length s) \<le> length (evac_failure_regions s)"
proof -
  have "\<forall>r\<in>set (take n rs). unat r < length (regions_failed_evacuation s0)"
    using assms(2) by (auto dest: in_set_takeD)
  from record_all_total [OF idle_tracker_inv [OF assms(1)] this]
  obtain s outs where ra: "record_all s0 (take n rs) = Inr (s, outs)" by blast
  note run = idle_run [OF assms(1) ra]
  have "length (evac_failure_regions s) = length (regions_failed_evacuation s0)"
    using run(6) assms(1) by (simp add: idle_def)
  moreover have "unat (evac_failure_regions_cur_length s) \<le> length (evac_failure_regions s)"
    using run(1) by (simp add: tracker_inv_def)
  ultimately show ?thesis using ra by blast
qed

theorem cur_length_within_capacity_witness:
  "idle scenario_idle \<and>
   (\<exists>s outs. record_all scenario_idle (take 3 [2, 2, 0, 1, 3, 3]) = Inr (s, outs) \<and>
      length (evac_failure_regions s) = 4 \<and>
      unat (evac_failure_regions_cur_length s) \<le> 4)"
proof -
  have "\<forall>r\<in>set [2, 2, 0, 1, 3, 3 :: uint].
          unat r < length (regions_failed_evacuation scenario_idle)"
    by (simp add: scenario_idle_def)
  from cur_length_within_capacity [OF idle_scenario_idle this, of 3] idle_scenario_idle
  show ?thesis by (auto simp: scenario_idle_def)
qed

text \<open>
  C8: after \<open>reset\<close> on a tracker whose Recording phase is over, \<open>count\<close> is 0,
  \<open>has_failed_regions\<close> is false, and in the next phase every region index within the
  bitmap wins its claim: whatever other regions are recorded first, the first call of
  \<open>record\<close> for the region returns true.
\<close>

theorem reset_allows_fresh_claims:
  assumes "idle s0" and "record_all s0 rs = Inr (s, outs)"
  shows "count (reset s) = 0 \<and> \<not> has_failed_regions (reset s) \<and>
         (\<forall>r qs. unat r < length (regions_failed_evacuation s) \<and> r \<notin> set qs \<and>
                 (\<forall>q\<in>set qs. unat q < length (regions_failed_evacuation s)) \<longrightarrow>
                 (\<exists>s1 outs1 s2. record_all (reset s) qs = Inr (s1, outs1) \<and>
                                record_region s1 r = Inr (s2, True)))"
proof -
  have idle: "idle (reset s)"
    using idle_reset [OF idle_run(1) [OF assms]] .
  have len: "length (regions_failed_evacuation (reset s)) = length (regions_failed_evacuation s)"
    by (simp add: reset_def)
  have "\<exists>s1 outs1 s2. record_all (reset s) qs = Inr (s1, outs1) \<and>
                      record_region s1 r = Inr (s2, True)"
    if r: "unat r < length (regions_failed_evacuation s)" and nin: "r \<notin> set qs"
      and qs: "\<forall>q\<in>set qs. unat q < length (regions_failed_evacuation s)" for r qs
  proof -
    have "\<forall>q\<in>set qs. unat q < length (regions_failed_evacuation (reset s))"
      using qs len by simp
    from record_all_total [OF idle_tracker_inv [OF idle] this]
    obtain s1 outs1 where ra: "record_all (reset s) qs = Inr (s1, outs1)" by blast
    have r1: "unat r < length (regions_failed_evacuation s1)"
      using idle_run(5) [OF idle ra] r len by simp
    have "\<not> regions_failed_evacuation s1 ! unat r"
      using idle_run_bits [OF idle ra r1] nin by simp
    with record_region_total [OF idle_run(1) [OF idle ra] r1] ra show ?thesis by auto
  qed
  then show ?thesis by (simp add: count_def has_failed_regions_def reset_def)
qed

theorem reset_allows_fresh_claims_witness:
  "idle scenario_idle \<and>
   record_all scenario_idle [2, 2, 0] = Inr (scenario_sealed, [True, False, True]) \<and>
   count (reset scenario_sealed) = 0 \<and> \<not> has_failed_regions (reset scenario_sealed) \<and>
   (\<exists>s1 outs1 s2. record_all (reset scenario_sealed) [0, 3] = Inr (s1, outs1) \<and>
                  record_region s1 2 = Inr (s2, True))"
proof -
  note t = reset_allows_fresh_claims [OF idle_scenario_idle scenario_run]
  from t have "\<forall>r qs. unat r < length (regions_failed_evacuation scenario_sealed) \<and>
             r \<notin> set qs \<and>
             (\<forall>q\<in>set qs. unat q < length (regions_failed_evacuation scenario_sealed)) \<longrightarrow>
             (\<exists>s1 outs1 s2. record_all (reset scenario_sealed) qs = Inr (s1, outs1) \<and>
                            record_region s1 r = Inr (s2, True))"
    by blast
  then have "unat (2 :: uint) < length (regions_failed_evacuation scenario_sealed) \<and>
             2 \<notin> set [0, 3 :: uint] \<and>
             (\<forall>q\<in>set [0, 3 :: uint]. unat q < length (regions_failed_evacuation scenario_sealed)) \<longrightarrow>
             (\<exists>s1 outs1 s2. record_all (reset scenario_sealed) [0, 3] = Inr (s1, outs1) \<and>
                            record_region s1 2 = Inr (s2, True))"
    by blast
  then have "\<exists>s1 outs1 s2. record_all (reset scenario_sealed) [0, 3] = Inr (s1, outs1) \<and>
                            record_region s1 2 = Inr (s2, True)"
    by (simp add: scenario_sealed_def)
  with t idle_scenario_idle scenario_run show ?thesis by blast
qed

text \<open>
  C9: once a call \<open>record(r)\<close> has returned, with true or with false, the presence bit of
  \<open>r\<close> is set; the call has cleared no bit; no later call of the phase clears a bit; and
  a later call for a region whose bit is set returns false, so the bit of a region goes
  from clear to set at most once in a phase.
\<close>

theorem presence_bits_monotone:
  assumes "record_region s r = Inr (s1, b)" and "record_all s1 rs = Inr (s2, outs)"
  shows "regions_failed_evacuation s1 ! unat r \<and>
         (\<forall>i<length (regions_failed_evacuation s).
            regions_failed_evacuation s ! i \<longrightarrow> regions_failed_evacuation s1 ! i) \<and>
         (\<forall>i<length (regions_failed_evacuation s1).
            regions_failed_evacuation s1 ! i \<longrightarrow> regions_failed_evacuation s2 ! i) \<and>
         (\<forall>k<length rs. regions_failed_evacuation s1 ! unat (rs ! k) \<longrightarrow> \<not> outs ! k)"
proof -
  note c = record_region_cases(1,3) [OF assms(1)]
  have 1: "regions_failed_evacuation s1 ! unat r" using c by simp
  have 2: "\<forall>i<length (regions_failed_evacuation s).
            regions_failed_evacuation s ! i \<longrightarrow> regions_failed_evacuation s1 ! i"
    using c by (simp add: nth_list_update)
  have 3: "\<forall>i<length (regions_failed_evacuation s1).
            regions_failed_evacuation s1 ! i \<longrightarrow> regions_failed_evacuation s2 ! i"
    using record_all_bits [OF assms(2)] by simp
  have 4: "\<forall>k<length rs. regions_failed_evacuation s1 ! unat (rs ! k) \<longrightarrow> \<not> outs ! k"
    using record_all_outs [OF assms(2)] by simp
  from 1 2 3 4 show ?thesis by blast
qed

theorem presence_bits_monotone_witness:
  "record_region scenario_idle 2 =
     Inr (\<lparr>regions_failed_evacuation = [False, False, True, False],
           evac_failure_regions = [2, 0, 0, 0],
           evac_failure_regions_cur_length = 1,
           evacuation_failure_notes = [2]\<rparr>, True) \<and>
   record_all \<lparr>regions_failed_evacuation = [False, False, True, False],
           evac_failure_regions = [2, 0, 0, 0],
           evac_failure_regions_cur_length = 1,
           evacuation_failure_notes = [2]\<rparr> [2, 0] = Inr (scenario_sealed, [False, True]) \<and>
   regions_failed_evacuation scenario_sealed ! 2"
proof -
  have rr: "record_region scenario_idle 2 =
     Inr (\<lparr>regions_failed_evacuation = [False, False, True, False],
           evac_failure_regions = [2, 0, 0, 0],
           evac_failure_regions_cur_length = 1,
           evacuation_failure_notes = [2]\<rparr>, True)"
    by (simp add: record_region_def par_set_bit_def fetch_then_add_def
        note_evacuation_failure_def scenario_idle_def)
  have ra: "record_all \<lparr>regions_failed_evacuation = [False, False, True, False],
           evac_failure_regions = [2, 0, 0, 0],
           evac_failure_regions_cur_length = 1,
           evacuation_failure_notes = [2]\<rparr> [2, 0] = Inr (scenario_sealed, [False, True])"
    by (simp add: record_region_def par_set_bit_def fetch_then_add_def
        note_evacuation_failure_def scenario_sealed_def)
  from presence_bits_monotone [OF rr ra] rr ra show ?thesis
    by (simp add: scenario_sealed_def)
qed

text \<open>
  C10: in every state reachable in a Recording phase and for every region index within
  the bitmap, a second call of \<open>record\<close> for the same region right after the first
  returns false and leaves the state of the first call as it is: the bitmap, the array,
  the counter and the trace of notifications.
\<close>

theorem record_region_idempotent:
  assumes "idle s0" and "record_all s0 rs = Inr (s, outs)"
    and "unat r < length (regions_failed_evacuation s)"
  shows "\<exists>s1 b. record_region s r = Inr (s1, b) \<and> record_region s1 r = Inr (s1, False)"
proof -
  from record_region_total [OF idle_run(1) [OF assms(1,2)] assms(3)]
  obtain s1 b where rr: "record_region s r = Inr (s1, b)" by blast
  note c = record_region_cases(1,3) [OF rr]
  have "record_region s1 r = Inr (s1, False)"
    using c by (intro record_region_bit_set) simp_all
  with rr show ?thesis by blast
qed

theorem record_region_idempotent_witness:
  "idle scenario_idle \<and>
   record_all scenario_idle [2, 2, 0] = Inr (scenario_sealed, [True, False, True]) \<and>
   (\<exists>s1 b. record_region scenario_sealed 3 = Inr (s1, b) \<and>
           record_region s1 3 = Inr (s1, False))"
  using record_region_idempotent [OF idle_scenario_idle scenario_run, of 3]
    idle_scenario_idle scenario_run
  by (simp add: scenario_sealed_def)

text \<open>
  C4: for a region index whose presence bit is already set, \<open>record\<close> returns false and
  leaves the whole state as it was: the bitmap, the length counter, every slot of the
  array, and the trace of notifications.
\<close>

theorem record_region_already_set:
  assumes "unat r < length (regions_failed_evacuation s)"
    and "regions_failed_evacuation s ! unat r"
  shows "record_region s r = Inr (s, False)"
  using assms by (rule record_region_bit_set)

theorem record_region_already_set_witness:
  "unat (2 :: uint) < length (regions_failed_evacuation scenario_sealed) \<and>
   regions_failed_evacuation scenario_sealed ! unat (2 :: uint) \<and>
   record_region scenario_sealed 2 = Inr (scenario_sealed, False)"
proof -
  have 1: "unat (2 :: uint) < length (regions_failed_evacuation scenario_sealed)"
    and 2: "regions_failed_evacuation scenario_sealed ! unat (2 :: uint)"
    by (simp_all add: scenario_sealed_def)
  from record_region_already_set [OF 1 2] 1 2 show ?thesis by simp
qed

end
